theory Spec2Isabelle
  imports Main
begin

section \<open>JavaScript string primitives used by the filesystem server\<close>

text \<open>
  A JavaScript string is modelled as a \<open>string\<close>, one \<open>char\<close> per code unit in the
  range 0..255. The three characters that cannot be written inside a literal get names.
\<close>

abbreviation bslash :: char where "bslash \<equiv> CHR 0x5C"
abbreviation squote :: char where "squote \<equiv> CHR 0x27"
abbreviation dquote :: char where "dquote \<equiv> CHR 0x22"

definition is_js_whitespace :: "char \<Rightarrow> bool" where
  \<comment> \<open>What \<open>String.prototype.trim\<close> removes, within 0..255: TAB, LF, VT, FF, CR, SP, NBSP.\<close>
  "is_js_whitespace c \<longleftrightarrow>
     c = CHR 0x09 \<or> c = CHR 0x0A \<or> c = CHR 0x0B \<or> c = CHR 0x0C \<or> c = CHR 0x0D \<or>
     c = CHR 0x20 \<or> c = CHR 0xA0"

definition js_trim :: "string \<Rightarrow> string" where
  "js_trim s = rev (dropWhile is_js_whitespace (rev (dropWhile is_js_whitespace s)))"

definition is_quote :: "char \<Rightarrow> bool" where
  \<comment> \<open>the character class \<open>["']\<close>\<close>
  "is_quote c \<longleftrightarrow> c = dquote \<or> c = squote"

definition is_lower :: "char \<Rightarrow> bool" where
  \<comment> \<open>the character class \<open>[a-z]\<close>\<close>
  "is_lower c \<longleftrightarrow> 97 \<le> (of_char c :: nat) \<and> (of_char c :: nat) \<le> 122"

definition is_upper :: "char \<Rightarrow> bool" where
  \<comment> \<open>the character class \<open>[A-Z]\<close>\<close>
  "is_upper c \<longleftrightarrow> 65 \<le> (of_char c :: nat) \<and> (of_char c :: nat) \<le> 90"

definition is_letter :: "char \<Rightarrow> bool" where
  \<comment> \<open>the character class \<open>[a-zA-Z]\<close>, which is also \<open>[a-z]\<close> under the \<open>i\<close> flag\<close>
  "is_letter c \<longleftrightarrow> is_lower c \<or> is_upper c"

definition toUpperChar :: "char \<Rightarrow> char" where
  \<comment> \<open>\<open>toUpperCase\<close> on one code unit, exact on ASCII only: JavaScript also maps the
      lower-case letters above 127, which stay as they are here. So \<open>convertToWindowsPath\<close>
      called on its own differs from the source at \<open>/mnt/<non-ASCII>/\<close>. \<open>normalizePath\<close>
      never gets there: each of its calls is behind a test for \<open>[a-z]\<close> or \<open>[a-zA-Z]\<close>
      (for \<open>p.charAt(5)\<close> see \<open>mount_prefix_reaches_convert_with_letter\<close>).\<close>
  "toUpperChar c = (if is_lower c then char_of (of_char c - 32 :: nat) else c)"

definition toUpperCase :: "string \<Rightarrow> string" where
  "toUpperCase s = map toUpperChar s"

definition charAt :: "string \<Rightarrow> nat \<Rightarrow> string" where
  \<comment> \<open>\<open>p.charAt(i)\<close>: the empty string when \<open>i\<close> is out of range\<close>
  "charAt p i = (if i < length p then [p ! i] else [])"

definition startsWith :: "string \<Rightarrow> string \<Rightarrow> bool" where
  \<comment> \<open>\<open>p.startsWith(pre)\<close>\<close>
  "startsWith p pre \<longleftrightarrow> take (length pre) p = pre"

definition slashes_to_backslashes :: "string \<Rightarrow> string" where
  \<comment> \<open>\<open>replace(/\//g, '\\')\<close>\<close>
  "slashes_to_backslashes s = map (\<lambda>c. if c = CHR ''/'' then bslash else c) s"

fun collapse_slashes :: "string \<Rightarrow> string" where
  \<comment> \<open>\<open>replace(/\/+/g, '/')\<close>: every run of slashes becomes one slash\<close>
  "collapse_slashes (a # b # cs) =
     (if a = CHR ''/'' \<and> b = CHR ''/'' then collapse_slashes (b # cs)
      else a # collapse_slashes (b # cs))"
| "collapse_slashes [a] = [a]"
| "collapse_slashes [] = []"

definition strip_trailing_slashes :: "string \<Rightarrow> string" where
  \<comment> \<open>\<open>replace(/\/+$/, '')\<close>: the whole run of slashes at the end goes\<close>
  "strip_trailing_slashes s = rev (dropWhile (\<lambda>c. c = CHR ''/'') (rev s))"

fun collapse_backslash_pairs :: "string \<Rightarrow> string" where
  \<comment> \<open>\<open>replace(/\\\\/g, '\\')\<close>: pairs of backslashes, left to right and without
      overlap, become one backslash each (three in a row leave two)\<close>
  "collapse_backslash_pairs (a # b # cs) =
     (if a = bslash \<and> b = bslash then bslash # collapse_backslash_pairs cs
      else a # collapse_backslash_pairs (b # cs))"
| "collapse_backslash_pairs cs = cs"

subsection \<open>The regular expressions of path-utils\<close>

fun re_mnt_letter :: "string \<Rightarrow> bool" where
  \<comment> \<open>\<open>/^\/mnt\/[a-z]\//i\<close>\<close>
  "re_mnt_letter (c0 # c1 # c2 # c3 # c4 # c5 # c6 # _) \<longleftrightarrow>
     c0 = CHR ''/'' \<and> (c1 = CHR ''m'' \<or> c1 = CHR ''M'') \<and> (c2 = CHR ''n'' \<or> c2 = CHR ''N'') \<and>
     (c3 = CHR ''t'' \<or> c3 = CHR ''T'') \<and> c4 = CHR ''/'' \<and> is_letter c5 \<and> c6 = CHR ''/''"
| "re_mnt_letter _ \<longleftrightarrow> False"

fun re_slash_letter :: "string \<Rightarrow> bool" where
  \<comment> \<open>\<open>/^\/[a-zA-Z]\//\<close>\<close>
  "re_slash_letter (c0 # c1 # c2 # _) \<longleftrightarrow> c0 = CHR ''/'' \<and> is_letter c1 \<and> c2 = CHR ''/''"
| "re_slash_letter _ \<longleftrightarrow> False"

fun re_drive :: "string \<Rightarrow> bool" where
  \<comment> \<open>\<open>/^[a-zA-Z]:/\<close>\<close>
  "re_drive (c0 # c1 # _) \<longleftrightarrow> is_letter c0 \<and> c1 = CHR '':''"
| "re_drive _ \<longleftrightarrow> False"

fun re_lower_drive :: "string \<Rightarrow> bool" where
  \<comment> \<open>\<open>/^[a-z]:/\<close>\<close>
  "re_lower_drive (c0 # c1 # _) \<longleftrightarrow> is_lower c0 \<and> c1 = CHR '':''"
| "re_lower_drive _ \<longleftrightarrow> False"

definition re_windows_like :: "string \<Rightarrow> bool" where
  \<comment> \<open>\<open>/^[a-zA-Z]:|^\/mnt\/[a-z]\/|^\/[a-z]\//i\<close>\<close>
  "re_windows_like s \<longleftrightarrow> re_drive s \<or> re_mnt_letter s \<or> re_slash_letter s"

section \<open>path-utils: convertToWindowsPath, normalizePath, expandHome\<close>

definition convertToWindowsPath :: "string \<Rightarrow> string" where
  "convertToWindowsPath p =
     (if startsWith p ''/mnt/'' then
        (let driveLetter = toUpperCase (charAt p 5);
             pathPart = slashes_to_backslashes (drop 6 p)
         in driveLetter @ '':'' @ pathPart)
      else if re_slash_letter p then
        (let driveLetter = toUpperCase (charAt p 1);
             pathPart = slashes_to_backslashes (drop 2 p)
         in driveLetter @ '':'' @ pathPart)
      else if re_drive p then slashes_to_backslashes p
      else p)"

definition drop_leading_quote :: "string \<Rightarrow> string" where
  "drop_leading_quote s = (case s of c # cs \<Rightarrow> if is_quote c then cs else s | [] \<Rightarrow> [])"

definition drop_trailing_quote :: "string \<Rightarrow> string" where
  "drop_trailing_quote s = (if s \<noteq> [] \<and> is_quote (last s) then butlast s else s)"

definition stripWrapping :: "string \<Rightarrow> string" where
  \<comment> \<open>the first statement of \<open>normalizePath\<close>:
      \<open>p.trim().replace(/^["']|["']$/g, '')\<close>. The global replace deletes a quote at
      the very start and, scanning on from there, a quote at the very end.\<close>
  "stripWrapping p = drop_trailing_quote (drop_leading_quote (js_trim p))"

definition isUnixPath :: "string \<Rightarrow> bool" where
  "isUnixPath p \<longleftrightarrow> startsWith p ''/'' \<and> \<not> re_mnt_letter p \<and> \<not> re_slash_letter p"

definition normalizePath :: "(string \<Rightarrow> string) \<Rightarrow> string \<Rightarrow> string" where
  \<comment> \<open>\<open>path_normalize\<close> is Node's \<open>path.normalize\<close> of the host the server runs on\<close>
  "normalizePath path_normalize p0 =
     (let p = stripWrapping p0 in
      if isUnixPath p then strip_trailing_slashes (collapse_slashes p)
      else
        (let p1 = convertToWindowsPath p;
             p2 = collapse_backslash_pairs p1;
             normalized = path_normalize p2
         in if re_windows_like normalized then
              (let result = slashes_to_backslashes normalized
               in if re_lower_drive result
                  then toUpperCase (charAt result 0) @ drop 1 result
                  else result)
            else normalized))"

definition expandHome :: "(string \<Rightarrow> string \<Rightarrow> string) \<Rightarrow> string \<Rightarrow> string \<Rightarrow> string" where
  \<comment> \<open>\<open>path_join\<close> is Node's two-argument \<open>path.join\<close>, \<open>homedir\<close> what \<open>os.homedir()\<close> returns\<close>
  "expandHome path_join homedir filepath =
     (if startsWith filepath ''~/'' \<or> filepath = ''~''
      then path_join homedir (drop 1 filepath)
      else filepath)"

section \<open>Node's path module on a POSIX host\<close>

text \<open>
  \<open>path.normalize\<close> and \<open>path.join\<close> belong to Node, not to this repository, and differ
  between hosts; \<open>normalizePath\<close> and \<open>expandHome\<close> take them as arguments. What follows is
  the POSIX flavour (\<open>path.posix\<close> in Node's \<open>lib/path.js\<close>), read at the level of path
  segments: \<open>normalizeString\<close> walks the segments between slashes, drops empty and \<open>.\<close>
  segments, and lets \<open>..\<close> remove the segment before it, or stay when there is none to
  remove and the path is relative.
\<close>

fun split_slash :: "string \<Rightarrow> string list" where
  \<comment> \<open>\<open>s.split('/')\<close>\<close>
  "split_slash [] = [[]]"
| "split_slash (c # cs) =
     (if c = CHR ''/'' then [] # split_slash cs
      else (case split_slash cs of s # ss \<Rightarrow> (c # s) # ss | [] \<Rightarrow> [[c]]))"

fun join_slash :: "string list \<Rightarrow> string" where
  \<comment> \<open>\<open>segs.join('/')\<close>\<close>
  "join_slash [] = []"
| "join_slash [s] = s"
| "join_slash (s # ss) = s @ ''/'' @ join_slash ss"

definition normalize_step :: "bool \<Rightarrow> string list \<Rightarrow> string \<Rightarrow> string list" where
  \<comment> \<open>one segment of \<open>normalizeString\<close>; the segments kept so far are a stack, last first\<close>
  "normalize_step allowAboveRoot stack seg =
     (if seg = [] \<or> seg = ''.'' then stack
      else if seg = ''..'' then
        (case stack of
           [] \<Rightarrow> if allowAboveRoot then [''..''] else []
         | seg0 # older \<Rightarrow>
             if seg0 = ''..'' then (if allowAboveRoot then ''..'' # stack else stack)
             else older)
      else seg # stack)"

definition normalizeString :: "string \<Rightarrow> bool \<Rightarrow> string" where
  "normalizeString path allowAboveRoot =
     join_slash (rev (foldl (normalize_step allowAboveRoot) [] (split_slash path)))"

definition posix_normalize :: "string \<Rightarrow> string" where
  "posix_normalize path =
     (if path = [] then ''.''
      else
        (let isAbsolute = (hd path = CHR ''/'');
             trailingSeparator = (last path = CHR ''/'');
             path' = normalizeString path (\<not> isAbsolute)
         in if path' = [] then
              (if isAbsolute then ''/'' else if trailingSeparator then ''./'' else ''.'')
            else
              (let path'' = (if trailingSeparator then path' @ ''/'' else path')
               in if isAbsolute then ''/'' @ path'' else path'')))"

definition posix_join :: "string \<Rightarrow> string \<Rightarrow> string" where
  \<comment> \<open>\<open>path.join(a, b)\<close>: the non-empty arguments joined by a slash, then normalized\<close>
  "posix_join a b =
     (let joined = join_slash (filter (\<lambda>arg. arg \<noteq> []) [a, b])
      in if joined = [] then ''.'' else posix_normalize joined)"

section \<open>roots-utils: getValidRootDirectories\<close>

record Root =
  uri :: string
  name :: "string option"

datatype js_error =
  Thrown string  \<comment> \<open>a thrown \<open>Error\<close>, with its message\<close>

datatype stat_outcome =
  StatRejects string  \<comment> \<open>\<open>fs.stat\<close> rejects, with the error's message\<close>
| Stats bool          \<comment> \<open>\<open>fs.stat\<close> resolves; the flag is \<open>stats.isDirectory()\<close>\<close>

type_synonym 'w fs_stat = "'w \<Rightarrow> string \<Rightarrow> stat_outcome \<times> 'w"

definition parseRootUri ::
  "(string \<Rightarrow> js_error + string) \<Rightarrow> (string \<Rightarrow> string) \<Rightarrow> string \<Rightarrow> js_error + string"
where
  \<comment> \<open>\<open>path_resolve\<close> is Node's one-argument \<open>path.resolve\<close>: it returns an absolute path, or
      throws when it has to read the working directory (a relative argument) and
      \<open>process.cwd()\<close> fails. Nothing here catches that.\<close>
  "parseRootUri path_resolve path_normalize u =
     (let rawPath = (if startsWith u ''file://'' then drop 7 u else u)
      in case path_resolve rawPath of
           Inl e \<Rightarrow> Inl e
         | Inr resolved \<Rightarrow> Inr (normalizePath path_normalize resolved))"

definition formatDirectoryError :: "string \<Rightarrow> string option \<Rightarrow> string option \<Rightarrow> string" where
  \<comment> \<open>\<open>error\<close> is the caught error's message (\<open>None\<close> for \<open>undefined\<close>); an absent or
      empty \<open>reason\<close> is falsy\<close>
  "formatDirectoryError dir error reason =
     (case reason of
        Some r \<Rightarrow>
          if r \<noteq> [] then ''Skipping '' @ r @ '': '' @ dir
          else ''Skipping invalid directory: '' @ dir @ '' due to error: '' @
               (case error of Some m \<Rightarrow> m | None \<Rightarrow> ''undefined'')
      | None \<Rightarrow>
          ''Skipping invalid directory: '' @ dir @ '' due to error: '' @
          (case error of Some m \<Rightarrow> m | None \<Rightarrow> ''undefined''))"

record 'w run_state =
  validDirectories :: "string list"
  console :: "string list"   \<comment> \<open>the lines written by \<open>console.error\<close>, oldest first\<close>
  world :: 'w                \<comment> \<open>whatever \<open>fs.stat\<close> reads and changes\<close>

datatype 'w settled =
  Resolves "'w run_state"          \<comment> \<open>the promise resolves to \<open>validDirectories\<close> of the state\<close>
| Rejects js_error "'w run_state"  \<comment> \<open>the promise rejects; the state is what had happened by then\<close>

fun roots_loop ::
  "(string \<Rightarrow> js_error + string) \<Rightarrow> (string \<Rightarrow> string) \<Rightarrow> 'w fs_stat \<Rightarrow> Root list \<Rightarrow>
   'w run_state \<Rightarrow> 'w settled"
where
  \<comment> \<open>the \<open>for (const root of roots)\<close> loop. \<open>parseRootUri\<close> is called before the \<open>try\<close>: what
      it throws leaves the function. Only \<open>fs.stat\<close> and \<open>isDirectory\<close> are inside the
      \<open>try\<close>: a rejected \<open>fs.stat\<close> lands in the \<open>catch\<close>.\<close>
  "roots_loop path_resolve path_normalize stat [] st = Resolves st"
| "roots_loop path_resolve path_normalize stat (root # roots) st =
     (case parseRootUri path_resolve path_normalize (uri root) of
        Inl e \<Rightarrow> Rejects e st
      | Inr dir \<Rightarrow>
          (let (outcome, w') = stat (world st) dir;
               st' = (case outcome of
                        Stats isDirectory \<Rightarrow>
                          if isDirectory
                          then st\<lparr>validDirectories := validDirectories st @ [dir], world := w'\<rparr>
                          else st\<lparr>console := console st @
                                     [formatDirectoryError dir None (Some ''non-directory root'')],
                                  world := w'\<rparr>
                      | StatRejects message \<Rightarrow>
                          st\<lparr>console := console st @
                                [formatDirectoryError dir (Some message) None],
                             world := w'\<rparr>)
           in roots_loop path_resolve path_normalize stat roots st'))"

definition getValidRootDirectories ::
  "(string \<Rightarrow> js_error + string) \<Rightarrow> (string \<Rightarrow> string) \<Rightarrow> 'w fs_stat \<Rightarrow> Root list \<Rightarrow>
   string list \<Rightarrow> 'w \<Rightarrow> 'w settled"
where
  \<comment> \<open>started with the console lines written so far and the current world\<close>
  "getValidRootDirectories path_resolve path_normalize stat roots console0 w =
     roots_loop path_resolve path_normalize stat roots
       \<lparr>validDirectories = [], console = console0, world = w\<rparr>"

fun stat_trace :: "'w fs_stat \<Rightarrow> 'w \<Rightarrow> string list \<Rightarrow> stat_outcome list" where
  \<comment> \<open>the outcomes of calling \<open>fs.stat\<close> on the given paths one after the other\<close>
  "stat_trace stat w [] = []"
| "stat_trace stat w (d # ds) = (let (outcome, w') = stat w d in outcome # stat_trace stat w' ds)"

definition skip_message :: "string \<Rightarrow> stat_outcome \<Rightarrow> string" where
  \<comment> \<open>the console line for a root that is skipped\<close>
  "skip_message dir outcome =
     (case outcome of
        StatRejects message \<Rightarrow> formatDirectoryError dir (Some message) None
      | Stats _ \<Rightarrow> formatDirectoryError dir None (Some ''non-directory root''))"

definition is_directory :: "string \<times> stat_outcome \<Rightarrow> bool" where
  \<comment> \<open>a path paired with the outcome of its \<open>fs.stat\<close>: resolved, and a directory\<close>
  "is_directory dr \<longleftrightarrow> snd dr = Stats True"

definition resolves_to :: "(string \<Rightarrow> js_error + string) \<Rightarrow> Root \<Rightarrow> string \<Rightarrow> bool" where
  \<comment> \<open>\<open>path.resolve\<close> returns \<open>resolved\<close> for the root's uri without a leading \<open>file://\<close>\<close>
  "resolves_to path_resolve root resolved \<longleftrightarrow>
     path_resolve (if startsWith (uri root) ''file://'' then drop 7 (uri root) else uri root)
       = Inr resolved"

section \<open>Vocabulary of the properties\<close>

definition segments :: "string \<Rightarrow> string list" where
  \<comment> \<open>the non-empty pieces between the slashes of a path\<close>
  "segments s = filter (\<lambda>seg. seg \<noteq> []) (split_slash s)"

fun has_double_backslash :: "string \<Rightarrow> bool" where
  \<comment> \<open>two backslashes next to each other somewhere in the string\<close>
  "has_double_backslash (a # b # cs) \<longleftrightarrow>
     (a = bslash \<and> b = bslash) \<or> has_double_backslash (b # cs)"
| "has_double_backslash _ \<longleftrightarrow> False"

definition lead_slash :: "string \<Rightarrow> string" where
  \<comment> \<open>the slash in front of a path that starts with one and has a segment\<close>
  "lead_slash s = (if s \<noteq> [] \<and> hd s = CHR ''/'' \<and> segments s \<noteq> [] then ''/'' else [])"

definition recapitalize :: "string \<Rightarrow> string" where
  \<comment> \<open>the last step of \<open>normalizePath\<close>, applied to what \<open>path.normalize\<close> returned\<close>
  "recapitalize normalized =
     (if re_windows_like normalized then
        (let result = slashes_to_backslashes normalized
         in if re_lower_drive result
            then toUpperCase (charAt result 0) @ drop 1 result
            else result)
      else normalized)"

section \<open>Evaluation and character facts\<close>

lemmas strip_defs = stripWrapping_def js_trim_def is_js_whitespace_def drop_leading_quote_def
  drop_trailing_quote_def is_quote_def

lemma of_char_toUpperChar:
  "is_lower c \<Longrightarrow> (of_char (toUpperChar c) :: nat) = of_char c - 32"
proof -
  assume l: "is_lower c"
  then have "(of_char c :: nat) - 32 < 256"
    unfolding is_lower_def by linarith
  then have "((of_char c :: nat) - 32) mod 256 = of_char c - 32"
    by (rule mod_less)
  with l show ?thesis
    by (simp add: toUpperChar_def)
qed

lemma toUpperChar_upper: "is_letter c \<Longrightarrow> is_upper (toUpperChar c)"
proof (cases "is_lower c")
  case True
  then have "(of_char (toUpperChar c) :: nat) = of_char c - 32"
    by (rule of_char_toUpperChar)
  moreover have "97 \<le> (of_char c :: nat)" and "(of_char c :: nat) \<le> 122"
    using True by (simp_all add: is_lower_def)
  ultimately show ?thesis
    unfolding is_upper_def by linarith
next
  case False
  moreover assume "is_letter c"
  ultimately show ?thesis
    by (simp add: is_letter_def toUpperChar_def)
qed

lemma upper_not_lower: "is_upper c \<Longrightarrow> \<not> is_lower c"
  by (simp add: is_upper_def is_lower_def)

lemma toUpperChar_fixed: "\<not> is_lower c \<Longrightarrow> toUpperChar c = c"
  by (simp add: toUpperChar_def)

lemma letter_plain:
  assumes "is_letter c"
  shows "c \<noteq> CHR ''/''" and "CHR ''/'' \<noteq> c" and "c \<noteq> bslash" and "c \<noteq> CHR '':''"
    and "\<not> is_js_whitespace c" and "\<not> is_quote c"
  using assms
  by (auto simp: is_letter_def is_lower_def is_upper_def is_js_whitespace_def is_quote_def)

lemma upper_is_letter: "is_upper c \<Longrightarrow> is_letter c"
  by (simp add: is_letter_def)

lemma slashes_to_backslashes_Cons:
  "slashes_to_backslashes (c # s) = (if c = CHR ''/'' then bslash else c) # slashes_to_backslashes s"
  by (simp add: slashes_to_backslashes_def)

lemma slashes_to_backslashes_no_slash: "CHR ''/'' \<notin> set (slashes_to_backslashes s)"
  by (auto simp: slashes_to_backslashes_def)

lemma slashes_to_backslashes_id: "CHR ''/'' \<notin> set s \<Longrightarrow> slashes_to_backslashes s = s"
  by (induction s) (auto simp: slashes_to_backslashes_def)

lemma collapse_backslash_pairs_id:
  "\<not> has_double_backslash s \<Longrightarrow> collapse_backslash_pairs s = s"
  by (induction s rule: collapse_backslash_pairs.induct) auto

lemma has_double_backslash_Cons:
  "a \<noteq> bslash \<Longrightarrow> has_double_backslash (a # s) = has_double_backslash s"
  by (cases s) auto

lemma mount_form_is_not_letter_form: "re_mnt_letter s \<Longrightarrow> \<not> re_slash_letter s"
  by (cases s rule: re_mnt_letter.cases) auto

lemma re_mnt_letter_iff:
  "re_mnt_letter s \<longleftrightarrow>
     (\<exists>m n t l rest. s = CHR ''/'' # m # n # t # CHR ''/'' # l # CHR ''/'' # rest \<and>
        (m = CHR ''m'' \<or> m = CHR ''M'') \<and> (n = CHR ''n'' \<or> n = CHR ''N'') \<and>
        (t = CHR ''t'' \<or> t = CHR ''T'') \<and> is_letter l)"
  by (cases s rule: re_mnt_letter.cases) auto

lemma re_slash_letter_iff:
  "re_slash_letter s \<longleftrightarrow> (\<exists>l rest. s = CHR ''/'' # l # CHR ''/'' # rest \<and> is_letter l)"
  by (cases s rule: re_slash_letter.cases) auto

lemma isUnixPath_iff:
  "isUnixPath s \<longleftrightarrow>
     (\<exists>rest. s = CHR ''/'' # rest) \<and>
     \<not> (\<exists>m n t l rest. s = CHR ''/'' # m # n # t # CHR ''/'' # l # CHR ''/'' # rest \<and>
        (m = CHR ''m'' \<or> m = CHR ''M'') \<and> (n = CHR ''n'' \<or> n = CHR ''N'') \<and>
        (t = CHR ''t'' \<or> t = CHR ''T'') \<and> is_letter l) \<and>
     \<not> (\<exists>l rest. s = CHR ''/'' # l # CHR ''/'' # rest \<and> is_letter l)"
proof -
  have "startsWith s ''/'' \<longleftrightarrow> (\<exists>rest. s = CHR ''/'' # rest)"
    by (cases s) (auto simp: startsWith_def)
  then show ?thesis
    by (simp only: isUnixPath_def re_mnt_letter_iff re_slash_letter_iff)
qed

lemma re_slash_letter_hd: "re_slash_letter (c # s) \<Longrightarrow> c = CHR ''/''"
  by (cases "c # s" rule: re_slash_letter.cases) auto

lemma normalizePath_unix_branch:
  "isUnixPath (stripWrapping p) \<Longrightarrow>
   normalizePath path_normalize p = strip_trailing_slashes (collapse_slashes (stripWrapping p))"
  by (simp add: normalizePath_def)

lemma normalizePath_other_branch:
  "\<not> isUnixPath (stripWrapping p) \<Longrightarrow>
   normalizePath path_normalize p =
     recapitalize (path_normalize
       (collapse_backslash_pairs (convertToWindowsPath (stripWrapping p))))"
  by (simp add: normalizePath_def recapitalize_def Let_def)

lemma recapitalize_drive:
  assumes l: "is_letter l" and ns: "CHR ''/'' \<notin> set r"
  shows "recapitalize (l # CHR '':'' # r) = toUpperChar l # CHR '':'' # r"
proof -
  have a: "slashes_to_backslashes (l # CHR '':'' # r) = l # CHR '':'' # r"
    using ns letter_plain(2) [OF l] by (simp add: slashes_to_backslashes_id)
  have b: "re_windows_like (l # CHR '':'' # r)"
    using l by (simp add: re_windows_like_def)
  show ?thesis
  proof (cases "is_lower l")
    case True
    then show ?thesis
      by (simp add: recapitalize_def a b Let_def toUpperCase_def charAt_def)
  next
    case False
    then show ?thesis
      by (simp add: recapitalize_def a b Let_def toUpperChar_fixed)
  qed
qed

section \<open>Splitting at slashes, and the Unix branch in closed form\<close>

lemma split_slash_not_Nil: "split_slash s \<noteq> []"
  by (induction s) (auto split: list.splits)

lemma split_slash_nonslash:
  "c \<noteq> CHR ''/'' \<Longrightarrow> split_slash (c # s) = (c # hd (split_slash s)) # tl (split_slash s)"
  using split_slash_not_Nil [of s] by (cases "split_slash s") auto

lemma split_slash_free: "CHR ''/'' \<notin> set s \<Longrightarrow> split_slash s = [s]"
  by (induction s) (auto split: list.splits)

lemma split_slash_append: "split_slash (xs @ CHR ''/'' # ys) = split_slash xs @ split_slash ys"
proof (induction xs)
  case Nil
  show ?case by simp
next
  case (Cons c xs)
  show ?case
  proof (cases "c = CHR ''/''")
    case True
    then show ?thesis using Cons.IH by simp
  next
    case False
    then show ?thesis
      using Cons.IH split_slash_not_Nil [of xs]
      by (cases "split_slash xs") (auto simp: split_slash_nonslash)
  qed
qed

lemma split_slash_pieces_free: "seg \<in> set (split_slash s) \<Longrightarrow> CHR ''/'' \<notin> set seg"
proof (induction s arbitrary: seg)
  case Nil
  then show ?case by simp
next
  case (Cons c s)
  show ?case
  proof (cases "c = CHR ''/''")
    case True
    with Cons show ?thesis by auto
  next
    case False
    obtain s0 ss where sp: "split_slash s = s0 # ss"
      using split_slash_not_Nil [of s] by (cases "split_slash s") auto
    with Cons False show ?thesis by auto
  qed
qed

lemma split_slash_slash: "split_slash (CHR ''/'' # s) = [] # split_slash s"
  by simp

declare split_slash.simps(2) [simp del]

lemma segments_slash: "segments (CHR ''/'' # s) = segments s"
  by (simp add: segments_def split_slash_slash)

lemma segments_nonslash:
  "c \<noteq> CHR ''/'' \<Longrightarrow>
   segments (c # s) = (c # hd (split_slash s)) # filter (\<lambda>seg. seg \<noteq> []) (tl (split_slash s))"
  by (simp add: segments_def split_slash_nonslash)

lemma join_slash_Cons_char: "join_slash ((c # x) # r) = c # join_slash (x # r)"
  by (cases r) auto

lemma join_slash_Nil_iff: "join_slash segs = [] \<longleftrightarrow> segs = [] \<or> segs = [[]]"
  by (induction segs rule: join_slash.induct) auto

lemma strip_trailing_slashes_Cons:
  "strip_trailing_slashes (c # t) =
     (if c = CHR ''/'' \<and> strip_trailing_slashes t = [] then [] else c # strip_trailing_slashes t)"
proof (cases "\<forall>x\<in>set t. x = CHR ''/''")
  case True
  then have "dropWhile (\<lambda>c. c = CHR ''/'') (rev t) = []" by simp
  moreover from True have "dropWhile (\<lambda>c. c = CHR ''/'') (rev t @ [c]) = dropWhile (\<lambda>c. c = CHR ''/'') [c]"
    by (intro dropWhile_append2) simp
  ultimately show ?thesis by (simp add: strip_trailing_slashes_def)
next
  case False
  then obtain x where x: "x \<in> set (rev t)" "\<not> x = CHR ''/''"
    by auto
  then have ne: "dropWhile (\<lambda>c. c = CHR ''/'') (rev t) \<noteq> []"
    by auto
  have "dropWhile (\<lambda>c. c = CHR ''/'') (rev t @ [c]) = dropWhile (\<lambda>c. c = CHR ''/'') (rev t) @ [c]"
    using x by (rule dropWhile_append1)
  with ne show ?thesis by (simp add: strip_trailing_slashes_def)
qed

lemma collapse_slashes_nonslash:
  "c \<noteq> CHR ''/'' \<Longrightarrow> collapse_slashes (c # cs) = c # collapse_slashes cs"
  by (cases cs) auto

lemma segments_letter_slash:
  "a \<noteq> CHR ''/'' \<Longrightarrow> segments (a # CHR ''/'' # cs) = [a] # segments cs"
  by (simp add: segments_def split_slash_nonslash split_slash_slash)

lemma segments_two_letters:
  "a \<noteq> CHR ''/'' \<Longrightarrow> b \<noteq> CHR ''/'' \<Longrightarrow>
   segments (a # b # cs) = (a # hd (segments (b # cs))) # tl (segments (b # cs))"
  by (simp add: segments_def split_slash_nonslash)

lemma segments_letter_not_Nil: "b \<noteq> CHR ''/'' \<Longrightarrow> segments (b # cs) \<noteq> []"
  by (simp add: segments_nonslash)

lemma lead_slash_slash:
  "lead_slash (CHR ''/'' # cs) = (if segments cs = [] then [] else ''/'')"
  by (simp add: lead_slash_def segments_slash)

lemma lead_slash_letter: "b \<noteq> CHR ''/'' \<Longrightarrow> lead_slash (b # cs) = []"
  by (simp add: lead_slash_def)

lemma unix_tidy_general:
  "strip_trailing_slashes (collapse_slashes s) = lead_slash s @ join_slash (segments s)"
proof (induction s rule: collapse_slashes.induct)
  case (1 a b cs)
  then have IH: "strip_trailing_slashes (collapse_slashes (b # cs)) =
      lead_slash (b # cs) @ join_slash (segments (b # cs))"
    by blast
  show ?case
  proof (cases "a = CHR ''/''")
    case a: True
    show ?thesis
    proof (cases "b = CHR ''/''")
      case True
      with a IH show ?thesis by (simp add: lead_slash_slash segments_slash)
    next
      case False
      then have ne: "segments (b # cs) \<noteq> []" "join_slash (segments (b # cs)) \<noteq> []"
        by (simp_all add: segments_nonslash join_slash_Nil_iff)
      have "strip_trailing_slashes (collapse_slashes (a # b # cs)) =
          strip_trailing_slashes (CHR ''/'' # collapse_slashes (b # cs))"
        using a False by simp
      also have "\<dots> = CHR ''/'' # join_slash (segments (b # cs))"
        using ne IH False by (simp add: strip_trailing_slashes_Cons lead_slash_letter)
      also have "\<dots> = lead_slash (a # b # cs) @ join_slash (segments (a # b # cs))"
        using a ne by (simp add: lead_slash_slash segments_slash)
      finally show ?thesis .
    qed
  next
    case a: False
    have step: "strip_trailing_slashes (collapse_slashes (a # b # cs)) =
        a # strip_trailing_slashes (collapse_slashes (b # cs))"
      using a by (simp only: collapse_slashes_nonslash strip_trailing_slashes_Cons if_False simp_thms)
    show ?thesis
    proof (cases "b = CHR ''/''")
      case True
      have "strip_trailing_slashes (collapse_slashes (a # b # cs)) =
          a # lead_slash (b # cs) @ join_slash (segments (b # cs))"
        by (simp only: step IH)
      also have "\<dots> = a # lead_slash (CHR ''/'' # cs) @ join_slash (segments cs)"
        by (simp only: True segments_slash)
      also have "\<dots> = join_slash ([a] # segments cs)"
        by (cases "segments cs") (simp_all add: lead_slash_slash)
      also have "\<dots> = lead_slash (a # b # cs) @ join_slash (segments (a # b # cs))"
        by (simp only: True segments_letter_slash [OF a] lead_slash_letter [OF a] append_Nil)
      finally show ?thesis .
    next
      case False
      obtain s0 ss where sg: "segments (b # cs) = s0 # ss"
        using segments_letter_not_Nil [OF False] by (cases "segments (b # cs)") auto
      have "strip_trailing_slashes (collapse_slashes (a # b # cs)) =
          a # lead_slash (b # cs) @ join_slash (segments (b # cs))"
        by (simp only: step IH)
      also have "\<dots> = a # join_slash (s0 # ss)"
        by (simp only: lead_slash_letter [OF False] sg append_Nil)
      also have "\<dots> = join_slash ((a # s0) # ss)"
        by (simp only: join_slash_Cons_char)
      also have "\<dots> = lead_slash (a # b # cs) @ join_slash (segments (a # b # cs))"
        by (simp only: segments_two_letters [OF a False] lead_slash_letter [OF a] sg append_Nil
            list.sel)
      finally show ?thesis .
    qed
  qed
next
  case (2 v)
  show ?case
    by (cases "v = CHR ''/''")
      (simp_all add: strip_trailing_slashes_def lead_slash_def segments_def split_slash_slash
        split_slash_nonslash)
next
  case 3
  show ?case by (simp add: strip_trailing_slashes_def lead_slash_def segments_def)
qed

lemma isUnixPath_starts: "isUnixPath s \<Longrightarrow> s \<noteq> [] \<and> hd s = CHR ''/''"
  by (cases s) (auto simp: isUnixPath_def startsWith_def)

lemma unix_tidy_closed_form:
  assumes "isUnixPath s" and "segments s \<noteq> []"
  shows "strip_trailing_slashes (collapse_slashes s) = CHR ''/'' # join_slash (segments s)"
  using assms isUnixPath_starts [of s] by (simp add: unix_tidy_general lead_slash_def)

lemma split_slash_join_slash:
  "segs \<noteq> [] \<Longrightarrow> \<forall>seg\<in>set segs. CHR ''/'' \<notin> set seg \<Longrightarrow>
   split_slash (join_slash segs) = segs"
proof (induction segs rule: join_slash.induct)
  case 1
  then show ?case by simp
next
  case (2 s)
  then show ?case by (simp add: split_slash_free)
next
  case (3 s t ss)
  have "split_slash (join_slash (s # t # ss)) = split_slash (s @ CHR ''/'' # join_slash (t # ss))"
    by simp
  also have "\<dots> = split_slash s @ split_slash (join_slash (t # ss))"
    by (rule split_slash_append)
  also have "\<dots> = [s] @ (t # ss)"
    using 3 by (simp add: split_slash_free)
  finally show ?case by simp
qed

lemma segments_pieces: "seg \<in> set (segments s) \<Longrightarrow> seg \<noteq> [] \<and> CHR ''/'' \<notin> set seg"
  by (auto simp: segments_def dest: split_slash_pieces_free)

lemma split_slash_closed_form:
  assumes "segments s \<noteq> []"
  shows "split_slash (CHR ''/'' # join_slash (segments s)) = [] # segments s"
  using assms by (simp add: split_slash_slash split_slash_join_slash segments_pieces)

lemma segments_closed_form:
  assumes "segments s \<noteq> []"
  shows "segments (CHR ''/'' # join_slash (segments s)) = segments s"
proof -
  have "filter (\<lambda>seg. seg \<noteq> []) (segments s) = segments s"
    by (simp add: segments_def)
  then show ?thesis
    using assms by (simp add: segments_def [of "CHR ''/'' # _"] split_slash_closed_form)
qed

section \<open>What the POSIX \<open>path.normalize\<close> does to a path without slashes\<close>

lemma posix_normalize_slash_free:
  assumes ne: "s \<noteq> []" and ns: "CHR ''/'' \<notin> set s"
  shows "posix_normalize s = s"
proof -
  have h: "hd s \<noteq> CHR ''/''"
    using ne ns by (cases s) auto
  have la: "last s \<noteq> CHR ''/''"
    using ne ns by (cases s rule: rev_cases) auto
  have sp: "split_slash s = [s]"
    using ns by (rule split_slash_free)
  show ?thesis
  proof (cases "s = ''.''")
    case True
    then show ?thesis
      by (simp add: posix_normalize_def normalizeString_def normalize_step_def
          split_slash_free)
  next
    case False
    then have "normalizeString s True = s"
      using ne by (simp add: normalizeString_def normalize_step_def sp)
    then show ?thesis
      using ne h la by (simp add: posix_normalize_def Let_def)
  qed
qed

section \<open>The shapes that are converted to a drive path\<close>

lemma mount_form_shape:
  assumes "startsWith s ''/mnt/''" and "re_mnt_letter s"
  shows "\<exists>l rest. s = ''/mnt/'' @ l # CHR ''/'' # rest \<and> is_letter l"
  using assms by (cases s rule: re_mnt_letter.cases) (auto simp: startsWith_def)

lemma letter_form_shape:
  assumes "re_slash_letter s"
  shows "\<exists>l rest. s = ''/'' @ l # CHR ''/'' # rest \<and> is_letter l"
  using assms by (cases s rule: re_slash_letter.cases) auto

lemma drive_form_shape:
  assumes "re_drive s"
  shows "\<exists>l rest. s = l # CHR '':'' # rest \<and> is_letter l"
  using assms by (cases s rule: re_drive.cases) auto

lemma mount_prefix_reaches_convert_with_letter:
  assumes "\<not> isUnixPath s" and "startsWith s ''/mnt/''"
  shows "\<exists>l. charAt s 5 = [l] \<and> is_letter l"
proof -
  have "startsWith s ''/''"
    using assms(2) by (cases s) (auto simp: startsWith_def)
  moreover have "\<not> re_slash_letter s"
    using assms(2) by (cases s rule: re_slash_letter.cases) (auto simp: startsWith_def)
  ultimately have "re_mnt_letter s"
    using assms(1) by (simp add: isUnixPath_def)
  then obtain l rest where "s = ''/mnt/'' @ l # CHR ''/'' # rest" and "is_letter l"
    using assms(2) mount_form_shape by blast
  then show ?thesis
    by (simp add: charAt_def)
qed

lemma convertToWindowsPath_mount_letter:
  assumes pre: "pre = ''/mnt/'' \<or> pre = ''/''" and l: "is_letter l"
  shows "convertToWindowsPath (pre @ l # CHR ''/'' # rest) =
           toUpperChar l # CHR '':'' # slashes_to_backslashes (CHR ''/'' # rest)"
  using pre l letter_plain(1) [OF l]
  by (auto simp: convertToWindowsPath_def startsWith_def charAt_def toUpperCase_def Let_def
      slashes_to_backslashes_Cons)

lemma convertToWindowsPath_drive:
  assumes l: "is_letter l"
  shows "convertToWindowsPath (l # CHR '':'' # rest) = l # CHR '':'' # slashes_to_backslashes rest"
proof -
  note ln = letter_plain(1) [OF l]
  have "\<not> re_slash_letter (l # CHR '':'' # rest)"
    using ln re_slash_letter_hd by blast
  then show ?thesis
    using l ln
    by (simp add: convertToWindowsPath_def startsWith_def slashes_to_backslashes_Cons)
qed

lemma not_unix_mount_letter:
  "pre = ''/mnt/'' \<or> pre = ''/'' \<Longrightarrow> is_letter l \<Longrightarrow>
   \<not> isUnixPath (pre @ l # CHR ''/'' # rest)"
  by (auto simp: isUnixPath_def)

lemma not_unix_letter_first: "is_letter l \<Longrightarrow> \<not> isUnixPath (l # rest)"
  using letter_plain(1) [of l] by (simp add: isUnixPath_def startsWith_def)

lemma collapse_backslash_pairs_set: "set (collapse_backslash_pairs s) \<subseteq> set s"
  by (induction s rule: collapse_backslash_pairs.induct) auto

lemma collapse_backslash_pairs_drive:
  "l \<noteq> bslash \<Longrightarrow>
   collapse_backslash_pairs (l # CHR '':'' # r) = l # CHR '':'' # collapse_backslash_pairs r"
  by (cases r) auto

lemma posix_drive_result:
  assumes l: "is_letter l" and ns: "CHR ''/'' \<notin> set r"
  shows "recapitalize (posix_normalize (collapse_backslash_pairs (l # CHR '':'' # r))) =
           toUpperChar l # CHR '':'' # collapse_backslash_pairs r"
proof -
  have ns': "CHR ''/'' \<notin> set (collapse_backslash_pairs r)"
    using ns collapse_backslash_pairs_set [of r] by blast
  then have "CHR ''/'' \<notin> set (l # CHR '':'' # collapse_backslash_pairs r)"
    using letter_plain(2) [OF l] by simp
  then have pn: "posix_normalize (l # CHR '':'' # collapse_backslash_pairs r) =
      l # CHR '':'' # collapse_backslash_pairs r"
    by (intro posix_normalize_slash_free) simp_all
  have cd: "collapse_backslash_pairs (l # CHR '':'' # r) =
      l # CHR '':'' # collapse_backslash_pairs r"
    using letter_plain(3) [OF l] by (rule collapse_backslash_pairs_drive)
  show ?thesis
    by (simp only: cd pn recapitalize_drive [OF l ns'])
qed

lemma posix_fixed_point_drive:
  assumes u: "is_upper c" and ns: "CHR ''/'' \<notin> set r"
    and st: "stripWrapping (c # CHR '':'' # r) = c # CHR '':'' # r"
    and nd: "\<not> has_double_backslash (c # CHR '':'' # r)"
  shows "normalizePath posix_normalize (c # CHR '':'' # r) = c # CHR '':'' # r"
proof -
  let ?q = "c # CHR '':'' # r"
  have l: "is_letter c"
    using u by (rule upper_is_letter)
  have nu: "\<not> isUnixPath (stripWrapping ?q)"
    using l by (simp only: st not_unix_letter_first not_False_eq_True)
  have conv: "convertToWindowsPath ?q = ?q"
    using ns by (simp add: convertToWindowsPath_drive [OF l] slashes_to_backslashes_id)
  have coll: "collapse_backslash_pairs ?q = ?q"
    using nd by (rule collapse_backslash_pairs_id)
  have "CHR ''/'' \<notin> set ?q"
    using ns letter_plain(2) [OF l] by simp
  then have pn: "posix_normalize ?q = ?q"
    by (intro posix_normalize_slash_free) simp_all
  have "normalizePath posix_normalize ?q = recapitalize ?q"
    by (simp only: normalizePath_other_branch [OF nu] st conv coll pn)
  also have "\<dots> = toUpperChar c # CHR '':'' # r"
    using l ns by (rule recapitalize_drive)
  also have "\<dots> = ?q"
    using u by (simp add: toUpperChar_fixed upper_not_lower)
  finally show ?thesis .
qed

section \<open>The bare root\<close>

text \<open>
  C2. A bare \<open>/\<close> is meant to normalize to \<open>/\<close>. The code takes the Unix branch, where
  \<open>replace(/\/+$/, '')\<close> removes the only character: the result is the empty string,
  whatever the host's \<open>path.normalize\<close> is.
\<close>

theorem normalizePath_bare_root_is_empty: "normalizePath path_normalize ''/'' = []"
  by (simp add: normalizePath_def strip_defs isUnixPath_def startsWith_def
      strip_trailing_slashes_def)

section \<open>Root validation\<close>

lemma parseRootUri_resolved:
  "resolves_to rs root r \<Longrightarrow> parseRootUri rs pn (uri root) = Inr (normalizePath pn r)"
  by (simp add: parseRootUri_def resolves_to_def)

lemma is_directory_simps:
  "is_directory (d, Stats True)" "\<not> is_directory (d, Stats False)"
  "\<not> is_directory (d, StatRejects m)"
  by (simp_all add: is_directory_def)

lemma skip_message_simps:
  "skip_message d (StatRejects m) = formatDirectoryError d (Some m) None"
  "skip_message d (Stats b) = formatDirectoryError d None (Some ''non-directory root'')"
  by (simp_all add: skip_message_def)

lemma roots_loop_resolves:
  assumes "list_all2 (resolves_to rs) roots resolved"
  shows "\<exists>st'. roots_loop rs pn stat roots st = Resolves st' \<and>
     validDirectories st' =
       validDirectories st @
       map fst (filter is_directory
         (zip (map (normalizePath pn) resolved)
              (stat_trace stat (world st) (map (normalizePath pn) resolved)))) \<and>
     console st' =
       console st @
       map (\<lambda>dr. skip_message (fst dr) (snd dr)) (filter (\<lambda>dr. \<not> is_directory dr)
         (zip (map (normalizePath pn) resolved)
              (stat_trace stat (world st) (map (normalizePath pn) resolved))))"
  using assms
proof (induction roots resolved arbitrary: st rule: list_all2_induct)
  case Nil
  show ?case by simp
next
  case (Cons root roots r resolved)
  let ?dir = "normalizePath pn r"
  have p: "parseRootUri rs pn (uri root) = Inr ?dir"
    using Cons.hyps(1) by (rule parseRootUri_resolved)
  obtain outcome w' where s: "stat (world st) ?dir = (outcome, w')"
    by (cases "stat (world st) ?dir")
  show ?case
  proof (cases outcome)
    case (StatRejects m)
    let ?st = "st\<lparr>console := console st @ [formatDirectoryError ?dir (Some m) None], world := w'\<rparr>"
    from Cons.IH [of ?st] obtain st' where
      "roots_loop rs pn stat roots ?st = Resolves st'"
      "validDirectories st' = validDirectories ?st @
         map fst (filter is_directory
           (zip (map (normalizePath pn) resolved)
                (stat_trace stat (world ?st) (map (normalizePath pn) resolved))))"
      "console st' = console ?st @
         map (\<lambda>dr. skip_message (fst dr) (snd dr)) (filter (\<lambda>dr. \<not> is_directory dr)
           (zip (map (normalizePath pn) resolved)
                (stat_trace stat (world ?st) (map (normalizePath pn) resolved))))"
      by blast
    with p s StatRejects show ?thesis
      by (simp add: is_directory_simps skip_message_simps)
  next
    case (Stats b)
    show ?thesis
    proof (cases b)
      case True
      let ?st = "st\<lparr>validDirectories := validDirectories st @ [?dir], world := w'\<rparr>"
      from Cons.IH [of ?st] obtain st' where
        "roots_loop rs pn stat roots ?st = Resolves st'"
        "validDirectories st' = validDirectories ?st @
           map fst (filter is_directory
             (zip (map (normalizePath pn) resolved)
                  (stat_trace stat (world ?st) (map (normalizePath pn) resolved))))"
        "console st' = console ?st @
           map (\<lambda>dr. skip_message (fst dr) (snd dr)) (filter (\<lambda>dr. \<not> is_directory dr)
             (zip (map (normalizePath pn) resolved)
                  (stat_trace stat (world ?st) (map (normalizePath pn) resolved))))"
        by blast
      with p s Stats True show ?thesis
        by (simp add: is_directory_simps skip_message_simps)
    next
      case False
      let ?st = "st\<lparr>console := console st @
          [formatDirectoryError ?dir None (Some ''non-directory root'')], world := w'\<rparr>"
      from Cons.IH [of ?st] obtain st' where
        "roots_loop rs pn stat roots ?st = Resolves st'"
        "validDirectories st' = validDirectories ?st @
           map fst (filter is_directory
             (zip (map (normalizePath pn) resolved)
                  (stat_trace stat (world ?st) (map (normalizePath pn) resolved))))"
        "console st' = console ?st @
           map (\<lambda>dr. skip_message (fst dr) (snd dr)) (filter (\<lambda>dr. \<not> is_directory dr)
             (zip (map (normalizePath pn) resolved)
                  (stat_trace stat (world ?st) (map (normalizePath pn) resolved))))"
        by blast
      with p s Stats False show ?thesis
        by (simp add: is_directory_simps skip_message_simps)
    qed
  qed
qed

lemma roots_loop_rejects:
  assumes "list_all2 (resolves_to rs) before resolved"
    and "parseRootUri rs pn (uri root) = Inl e"
  shows "\<exists>st'. roots_loop rs pn stat (before @ root # after) st = Rejects e st'"
  using assms
proof (induction before resolved arbitrary: st rule: list_all2_induct)
  case Nil
  then show ?case by simp
next
  case (Cons r0 before r resolved)
  have p: "parseRootUri rs pn (uri r0) = Inr (normalizePath pn r)"
    using Cons.hyps(1) by (rule parseRootUri_resolved)
  obtain outcome w' where s: "stat (world st) (normalizePath pn r) = (outcome, w')"
    by (cases "stat (world st) (normalizePath pn r)")
  show ?case
    using Cons.IH [OF Cons.prems] p s by (simp add: Let_def)
qed

text \<open>
  C3. Take a list of roots for which \<open>path.resolve\<close> returns a path at every root, and any
  \<open>fs.stat\<close>, also one whose answers change from call to call. Then the promise of
  \<open>getValidRootDirectories\<close> resolves. Its directories are, in input order, the paths
  \<open>normalizePath(path.resolve(raw))\<close>, \<open>raw\<close> being the uri without a leading \<open>file://\<close>, of
  exactly the roots whose \<open>fs.stat\<close> resolved to a directory, and every other root has
  added one line to the console, in input order too. (When \<open>path.resolve\<close> throws at a
  root the promise rejects, even if every root before it was fine: \<open>roots_loop_rejects\<close>.)
\<close>

theorem getValidRootDirectories_filters_in_order:
  assumes "list_all2 (resolves_to path_resolve) roots resolved"
  shows "\<exists>st. getValidRootDirectories path_resolve pn stat roots c0 w = Resolves st \<and>
     validDirectories st =
       map fst (filter is_directory
         (zip (map (normalizePath pn) resolved)
              (stat_trace stat w (map (normalizePath pn) resolved)))) \<and>
     console st =
       c0 @ map (\<lambda>dr. skip_message (fst dr) (snd dr)) (filter (\<lambda>dr. \<not> is_directory dr)
         (zip (map (normalizePath pn) resolved)
              (stat_trace stat w (map (normalizePath pn) resolved))))"
  using roots_loop_resolves [OF assms, of pn stat "\<lparr>validDirectories = [], console = c0, world = w\<rparr>"]
  by (simp add: getValidRootDirectories_def)

theorem getValidRootDirectories_filters_in_order_witness:
  "\<exists>st. getValidRootDirectories Inr posix_normalize
        (\<lambda>w d. (if d = ''/tmp/ok'' then Stats True
                 else if d = ''/tmp/ok/afile'' then Stats False
                 else StatRejects ''ENOENT'', w))
        [\<lparr>uri = ''file:///tmp/ok'', name = None\<rparr>,
         \<lparr>uri = ''/tmp/missing'', name = None\<rparr>,
         \<lparr>uri = ''/tmp/ok/afile'', name = None\<rparr>] [] () = Resolves st \<and>
      validDirectories st = [''/tmp/ok''] \<and>
      console st = [''Skipping invalid directory: /tmp/missing due to error: ENOENT'',
                    ''Skipping non-directory root: /tmp/ok/afile'']"
proof -
  have r: "list_all2 (resolves_to Inr)
      [\<lparr>uri = ''file:///tmp/ok'', name = None\<rparr>,
       \<lparr>uri = ''/tmp/missing'', name = None\<rparr>,
       \<lparr>uri = ''/tmp/ok/afile'', name = None\<rparr>]
      [''/tmp/ok'', ''/tmp/missing'', ''/tmp/ok/afile'']"
    by (simp add: resolves_to_def startsWith_def)
  have n: "normalizePath posix_normalize ''/tmp/ok'' = ''/tmp/ok''"
    "normalizePath posix_normalize ''/tmp/missing'' = ''/tmp/missing''"
    "normalizePath posix_normalize ''/tmp/ok/afile'' = ''/tmp/ok/afile''"
    by code_simp+
  show ?thesis
    using getValidRootDirectories_filters_in_order [OF r, of posix_normalize
        "\<lambda>w d. (if d = ''/tmp/ok'' then Stats True
                 else if d = ''/tmp/ok/afile'' then Stats False
                 else StatRejects ''ENOENT'', w)" "[]" "()"]
    by (simp add: n is_directory_simps skip_message_simps formatDirectoryError_def)
qed

theorem getValidRootDirectories_rejects_counterexample:
  "getValidRootDirectories
     (\<lambda>p. if startsWith p ''/'' then Inr p else Inl (Thrown ''ENOENT: uv_cwd''))
     posix_normalize (\<lambda>w d. (Stats True, w))
     [\<lparr>uri = ''file:///tmp/ok'', name = None\<rparr>, \<lparr>uri = ''relative/dir'', name = None\<rparr>] [] ()
   = Rejects (Thrown ''ENOENT: uv_cwd'')
       \<lparr>validDirectories = [''/tmp/ok''], console = [], world = ()\<rparr>"
  by code_simp

section \<open>Drive-letter forms\<close>

text \<open>
  C1. Take an input whose stripped form is \<open>/mnt/<letter>/<rest>\<close> or
  \<open>/<letter>/<rest>\<close>, where no two separators (slash or backslash) stand next to each
  other from the slash after the letter on, and a host whose \<open>path.normalize\<close> leaves
  the converted path as it is (a POSIX host always does, see
  \<open>posix_normalize_slash_free\<close>). Then \<open>normalizePath\<close> returns the upper-case letter, a
  colon, and the rest with every slash turned into a backslash. No path has both shapes
  (\<open>mount_form_is_not_letter_form\<close>), so there is no tie to break.
\<close>

theorem normalizePath_mount_and_letter_forms:
  assumes s: "stripWrapping p = pre @ l # CHR ''/'' # rest"
    and pre: "pre = ''/mnt/'' \<or> pre = ''/''"
    and l: "is_letter l"
    and nd: "\<not> has_double_backslash (slashes_to_backslashes (CHR ''/'' # rest))"
    and pn: "path_normalize (toUpperChar l # CHR '':'' # slashes_to_backslashes (CHR ''/'' # rest))
               = toUpperChar l # CHR '':'' # slashes_to_backslashes (CHR ''/'' # rest)"
  shows "normalizePath path_normalize p =
           toUpperChar l # CHR '':'' # slashes_to_backslashes (CHR ''/'' # rest)"
proof -
  let ?r = "slashes_to_backslashes (CHR ''/'' # rest)"
  let ?t = "toUpperChar l # CHR '':'' # ?r"
  have u: "is_letter (toUpperChar l)"
    using l by (simp add: toUpperChar_upper upper_is_letter)
  have uu: "toUpperChar (toUpperChar l) = toUpperChar l"
    using l by (simp add: toUpperChar_fixed toUpperChar_upper upper_not_lower)
  have nu: "\<not> isUnixPath (stripWrapping p)"
    by (simp only: s not_unix_mount_letter [OF pre l] not_False_eq_True)
  have conv: "convertToWindowsPath (stripWrapping p) = ?t"
    by (simp only: s convertToWindowsPath_mount_letter [OF pre l])
  have "\<not> has_double_backslash ?t"
    using nd by (simp add: has_double_backslash_Cons)
  then have coll: "collapse_backslash_pairs ?t = ?t"
    by (rule collapse_backslash_pairs_id)
  have "normalizePath path_normalize p = recapitalize (path_normalize ?t)"
    by (simp only: normalizePath_other_branch [OF nu] conv coll)
  also have "\<dots> = recapitalize ?t"
    by (simp only: pn)
  also have "\<dots> = toUpperChar (toUpperChar l) # CHR '':'' # ?r"
    using u slashes_to_backslashes_no_slash by (rule recapitalize_drive)
  finally show ?thesis
    by (simp only: uu)
qed

theorem normalizePath_mount_and_letter_forms_witness:
  "normalizePath posix_normalize ''  /mnt/c/Users/x '' =
     CHR ''C'' # CHR '':'' # bslash # ''Users'' @ bslash # ''x''"
proof -
  have s: "stripWrapping ''  /mnt/c/Users/x '' = ''/mnt/'' @ CHR ''c'' # CHR ''/'' # ''Users/x''"
    by code_simp
  have pre: "''/mnt/'' = ''/mnt/'' \<or> ''/mnt/'' = ''/''"
    by simp
  have l: "is_letter (CHR ''c'')"
    by code_simp
  have nd: "\<not> has_double_backslash (slashes_to_backslashes (CHR ''/'' # ''Users/x''))"
    by code_simp
  have pn: "posix_normalize
      (toUpperChar (CHR ''c'') # CHR '':'' # slashes_to_backslashes (CHR ''/'' # ''Users/x'')) =
      toUpperChar (CHR ''c'') # CHR '':'' # slashes_to_backslashes (CHR ''/'' # ''Users/x'')"
    by code_simp
  have u: "toUpperChar (CHR ''c'') = CHR ''C''"
    by code_simp
  have r: "slashes_to_backslashes (CHR ''/'' # ''Users/x'') = bslash # ''Users'' @ bslash # ''x''"
    by code_simp
  show ?thesis
    using normalizePath_mount_and_letter_forms
      [where p = "''  /mnt/c/Users/x ''" and pre = "''/mnt/''" and l = "CHR ''c''"
        and rest = "''Users/x''" and path_normalize = posix_normalize, OF s pre l nd pn] by (simp only: u r)
qed

theorem normalizePath_doubled_slash_counterexample:
  "normalizePath posix_normalize ''/mnt/c/a//b'' = CHR ''C'' # CHR '':'' # bslash # CHR ''a'' # bslash # ''b''
   \<and> normalizePath posix_normalize ''/mnt/c/a//b'' \<noteq>
       toUpperChar (CHR ''c'') # CHR '':'' # slashes_to_backslashes ''/a//b''"
  by code_simp

text \<open>
  C5. Take an input whose stripped form is \<open><letter>:<rest>\<close>, where the rest
  has no two separators next to each other, and a host whose \<open>path.normalize\<close> leaves
  the path with backslashes as it is. Then \<open>normalizePath\<close> returns the upper-case letter,
  the colon, and the rest with every slash turned into a backslash and nothing else
  changed.
\<close>

theorem normalizePath_drive_form:
  assumes s: "stripWrapping p = l # CHR '':'' # rest"
    and l: "is_letter l"
    and nd: "\<not> has_double_backslash (slashes_to_backslashes rest)"
    and pn: "path_normalize (l # CHR '':'' # slashes_to_backslashes rest)
               = l # CHR '':'' # slashes_to_backslashes rest"
  shows "normalizePath path_normalize p = toUpperChar l # CHR '':'' # slashes_to_backslashes rest"
proof -
  let ?t = "l # CHR '':'' # slashes_to_backslashes rest"
  have nu: "\<not> isUnixPath (stripWrapping p)"
    by (simp only: s not_unix_letter_first [OF l] not_False_eq_True)
  have conv: "convertToWindowsPath (stripWrapping p) = ?t"
    by (simp only: s convertToWindowsPath_drive [OF l])
  have "\<not> has_double_backslash ?t"
    using nd by (simp add: has_double_backslash_Cons)
  then have coll: "collapse_backslash_pairs ?t = ?t"
    by (rule collapse_backslash_pairs_id)
  have "normalizePath path_normalize p = recapitalize (path_normalize ?t)"
    by (simp only: normalizePath_other_branch [OF nu] conv coll)
  also have "\<dots> = recapitalize ?t"
    by (simp only: pn)
  also have "\<dots> = toUpperChar l # CHR '':'' # slashes_to_backslashes rest"
    using l slashes_to_backslashes_no_slash by (rule recapitalize_drive)
  finally show ?thesis .
qed

theorem normalizePath_drive_form_witness:
  "normalizePath posix_normalize ''c:/Users/test'' =
     CHR ''C'' # CHR '':'' # bslash # ''Users'' @ bslash # ''test''"
proof -
  have s: "stripWrapping ''c:/Users/test'' = CHR ''c'' # CHR '':'' # ''/Users/test''"
    by code_simp
  have l: "is_letter (CHR ''c'')"
    by code_simp
  have nd: "\<not> has_double_backslash (slashes_to_backslashes ''/Users/test'')"
    by code_simp
  have pn: "posix_normalize (CHR ''c'' # CHR '':'' # slashes_to_backslashes ''/Users/test'') =
      CHR ''c'' # CHR '':'' # slashes_to_backslashes ''/Users/test''"
    by code_simp
  have u: "toUpperChar (CHR ''c'') = CHR ''C''"
    by code_simp
  have r: "slashes_to_backslashes ''/Users/test'' = bslash # ''Users'' @ bslash # ''test''"
    by code_simp
  show ?thesis
    using normalizePath_drive_form
      [where p = "''c:/Users/test''" and l = "CHR ''c''" and rest = "''/Users/test''"
        and path_normalize = posix_normalize, OF s l nd pn] by (simp only: u r)
qed

theorem normalizePath_drive_doubled_slash_counterexample:
  "normalizePath posix_normalize ''c://x'' = CHR ''C'' # CHR '':'' # bslash # ''x''
   \<and> normalizePath posix_normalize ''c://x'' \<noteq>
       toUpperChar (CHR ''c'') # CHR '':'' # slashes_to_backslashes ''//x''"
  by code_simp

section \<open>Plain POSIX paths\<close>

text \<open>
  C4. Call a path plain POSIX when it starts with a slash and has neither a
  \<open>/mnt/<letter>/\<close> prefix, with \<open>mnt\<close> in any mix of upper and lower case, nor a
  \<open>/<letter>/\<close> prefix: this is the code's \<open>isUnixPath\<close>, spelled out in \<open>isUnixPath_iff\<close>.
  Take an input whose stripped form is plain POSIX and has at least one segment, so is
  not the bare root. Then \<open>normalizePath\<close> returns a slash followed by the non-empty
  segments of the stripped path joined by single slashes: runs of slashes are collapsed,
  the trailing slash is gone, the segments themselves are untouched (no drive letter,
  no backslash conversion), on every host.
\<close>

theorem normalizePath_plain_posix:
  assumes "isUnixPath (stripWrapping p)" and "segments (stripWrapping p) \<noteq> []"
  shows "normalizePath path_normalize p = CHR ''/'' # join_slash (segments (stripWrapping p))"
  using assms by (simp add: normalizePath_unix_branch unix_tidy_closed_form)

theorem normalizePath_plain_posix_witness:
  "normalizePath posix_normalize ''/usr//local/bin/'' = ''/usr/local/bin''"
proof -
  have u: "isUnixPath (stripWrapping ''/usr//local/bin/'')"
    by code_simp
  have g: "segments (stripWrapping ''/usr//local/bin/'') \<noteq> []"
    by code_simp
  have j: "CHR ''/'' # join_slash (segments (stripWrapping ''/usr//local/bin/'')) = ''/usr/local/bin''"
    by code_simp
  show ?thesis
    using normalizePath_plain_posix [OF u g, of posix_normalize] by (simp only: j)
qed

theorem normalizePath_plain_posix_counterexample:
  "normalizePath posix_normalize ''/usr/local '' = ''/usr/local'' \<and>
   normalizePath posix_normalize ''/usr/local '' \<noteq>
     strip_trailing_slashes (collapse_slashes ''/usr/local '') \<and>
   normalizePath posix_normalize ''/MNT/C/Users'' = bslash # ''MNT'' @ bslash # ''C'' @ bslash # ''Users'' \<and>
   normalizePath posix_normalize ''/MNT/C/Users'' \<noteq>
     strip_trailing_slashes (collapse_slashes ''/MNT/C/Users'')"
  by code_simp

text \<open>
  C7. Take an input whose stripped form is plain POSIX in the sense of \<open>isUnixPath\<close> (a
  leading slash, no \<open>/mnt/<letter>/\<close> prefix in any letter case, no \<open>/<letter>/\<close> prefix) and
  has at least one segment. The pieces between the slashes of the output are an empty
  first piece (the leading slash) and then exactly the non-empty pieces of the stripped
  input, in order. So separators are collapsed and no trailing slash is left, but \<open>.\<close>
  and \<open>..\<close> segments are kept as they are written: the Unix branch never calls
  \<open>path.normalize\<close>.
\<close>

theorem normalizePath_plain_posix_keeps_segments:
  assumes "isUnixPath (stripWrapping p)" and "segments (stripWrapping p) \<noteq> []"
  shows "split_slash (normalizePath path_normalize p) = [] # segments (stripWrapping p)"
  using assms
  by (simp add: normalizePath_unix_branch unix_tidy_closed_form split_slash_closed_form)

theorem normalizePath_plain_posix_keeps_segments_witness:
  "split_slash (normalizePath posix_normalize ''/usr/./lib//../bin/'') =
     [[], ''usr'', ''.'', ''lib'', ''..'', ''bin'']"
proof -
  have u: "isUnixPath (stripWrapping ''/usr/./lib//../bin/'')"
    by code_simp
  have g: "segments (stripWrapping ''/usr/./lib//../bin/'') \<noteq> []"
    by code_simp
  have j: "segments (stripWrapping ''/usr/./lib//../bin/'') = [''usr'', ''.'', ''lib'', ''..'', ''bin'']"
    by code_simp
  show ?thesis
    using normalizePath_plain_posix_keeps_segments [OF u g, of posix_normalize] by (simp only: j)
qed

theorem normalizePath_dot_dot_counterexample:
  "normalizePath posix_normalize ''/usr/../bin'' = ''/usr/../bin'' \<and>
   ''..'' \<in> set (split_slash (normalizePath posix_normalize ''/usr/../bin'')) \<and>
   split_slash (normalizePath posix_normalize ''/MNT/C/Users'') =
     [bslash # ''MNT'' @ bslash # ''C'' @ bslash # ''Users'']"
  by code_simp

section \<open>Idempotence\<close>

text \<open>
  C6. On a POSIX host, take an input whose stripped form is of one of four kinds: plain
  POSIX in the sense of \<open>isUnixPath\<close> (a leading slash, no \<open>/mnt/<letter>/\<close> prefix in any
  letter case, no \<open>/<letter>/\<close> prefix); a \<open>/mnt/<letter>/\<close> path with \<open>mnt\<close> in lower case; a
  \<open>/<letter>/\<close> path; a \<open><letter>:\<close> path. Let \<open>q\<close> be its normal form. If the stripping step
  leaves \<open>q\<close> as it is, and \<open>q\<close> is again plain POSIX in that sense when the input was,
  and \<open>q\<close> has no doubled backslash when the input was not, then normalizing \<open>q\<close> gives
  \<open>q\<close>.
\<close>

theorem normalizePath_idempotent_posix:
  assumes form: "isUnixPath (stripWrapping p) \<or>
                 (startsWith (stripWrapping p) ''/mnt/'' \<and> re_mnt_letter (stripWrapping p)) \<or>
                 re_slash_letter (stripWrapping p) \<or> re_drive (stripWrapping p)"
    and st: "stripWrapping (normalizePath posix_normalize p) = normalizePath posix_normalize p"
    and ux: "isUnixPath (stripWrapping p) \<Longrightarrow> isUnixPath (normalizePath posix_normalize p)"
    and db: "\<not> isUnixPath (stripWrapping p) \<Longrightarrow>
             \<not> has_double_backslash (normalizePath posix_normalize p)"
  shows "normalizePath posix_normalize (normalizePath posix_normalize p) =
           normalizePath posix_normalize p"
proof (cases "isUnixPath (stripWrapping p)")
  case True
  let ?s = "stripWrapping p"
  let ?q = "normalizePath posix_normalize p"
  have q: "?q = lead_slash ?s @ join_slash (segments ?s)"
    using True by (simp add: normalizePath_unix_branch unix_tidy_general)
  have uq: "isUnixPath ?q"
    using True by (rule ux)
  have sg: "segments ?s \<noteq> []"
  proof
    assume "segments ?s = []"
    then have "?q = []" by (simp add: q lead_slash_def)
    with uq show False by (simp add: isUnixPath_def startsWith_def)
  qed
  have q': "?q = CHR ''/'' # join_slash (segments ?s)"
    using True sg by (simp add: normalizePath_unix_branch unix_tidy_closed_form)
  have sq: "segments ?q = segments ?s"
    by (simp only: q' segments_closed_form [OF sg])
  have "normalizePath posix_normalize ?q = strip_trailing_slashes (collapse_slashes ?q)"
    using uq by (simp add: normalizePath_unix_branch st)
  also have "\<dots> = CHR ''/'' # join_slash (segments ?q)"
    using uq sg by (intro unix_tidy_closed_form) (simp_all only: sq not_False_eq_True)
  also have "\<dots> = ?q"
    unfolding sq by (rule q' [symmetric])
  finally show ?thesis .
next
  case False
  let ?s = "stripWrapping p"
  let ?q = "normalizePath posix_normalize p"
  have "\<exists>c r. ?q = c # CHR '':'' # r \<and> is_upper c \<and> CHR ''/'' \<notin> set r"
  proof -
    from form False consider
      (mount) "startsWith ?s ''/mnt/''" "re_mnt_letter ?s"
      | (letter) "re_slash_letter ?s"
      | (drive) "re_drive ?s"
      by blast
    then have "\<exists>l r. is_letter l \<and> CHR ''/'' \<notin> set r \<and> convertToWindowsPath ?s = l # CHR '':'' # r"
    proof cases
      case mount
      then obtain l rest where "?s = ''/mnt/'' @ l # CHR ''/'' # rest" "is_letter l"
        using mount_form_shape by blast
      then have "convertToWindowsPath ?s = toUpperChar l # CHR '':'' # slashes_to_backslashes (CHR ''/'' # rest)"
        and "is_letter (toUpperChar l)"
        by (simp_all only: convertToWindowsPath_mount_letter simp_thms toUpperChar_upper upper_is_letter)
      then show ?thesis
        using slashes_to_backslashes_no_slash by blast
    next
      case letter
      then obtain l rest where "?s = ''/'' @ l # CHR ''/'' # rest" "is_letter l"
        using letter_form_shape by blast
      then have "convertToWindowsPath ?s = toUpperChar l # CHR '':'' # slashes_to_backslashes (CHR ''/'' # rest)"
        and "is_letter (toUpperChar l)"
        by (simp_all only: convertToWindowsPath_mount_letter simp_thms toUpperChar_upper upper_is_letter)
      then show ?thesis
        using slashes_to_backslashes_no_slash by blast
    next
      case drive
      then obtain l rest where "?s = l # CHR '':'' # rest" "is_letter l"
        using drive_form_shape by blast
      then have "convertToWindowsPath ?s = l # CHR '':'' # slashes_to_backslashes rest"
        by (simp only: convertToWindowsPath_drive)
      with \<open>is_letter l\<close> show ?thesis
        using slashes_to_backslashes_no_slash by blast
    qed
    then obtain l r where l: "is_letter l" and ns: "CHR ''/'' \<notin> set r"
      and conv: "convertToWindowsPath ?s = l # CHR '':'' # r"
      by blast
    have "?q = toUpperChar l # CHR '':'' # collapse_backslash_pairs r"
      by (simp only: normalizePath_other_branch [OF False] conv posix_drive_result [OF l ns])
    moreover have "is_upper (toUpperChar l)"
      using l by (rule toUpperChar_upper)
    moreover have "CHR ''/'' \<notin> set (collapse_backslash_pairs r)"
      using ns collapse_backslash_pairs_set [of r] by blast
    ultimately show ?thesis by blast
  qed
  then obtain c r where q: "?q = c # CHR '':'' # r" and u: "is_upper c" and ns: "CHR ''/'' \<notin> set r"
    by blast
  have "normalizePath posix_normalize (c # CHR '':'' # r) = c # CHR '':'' # r"
    using u ns st db [OF False] unfolding q by (rule posix_fixed_point_drive)
  then show ?thesis
    by (simp only: q)
qed

theorem normalizePath_idempotent_posix_witness:
  "normalizePath posix_normalize (normalizePath posix_normalize ''/usr//local/bin/'') =
     normalizePath posix_normalize ''/usr//local/bin/''"
proof -
  have u: "isUnixPath (stripWrapping ''/usr//local/bin/'')"
    by code_simp
  have form: "isUnixPath (stripWrapping ''/usr//local/bin/'') \<or>
      (startsWith (stripWrapping ''/usr//local/bin/'') ''/mnt/'' \<and>
       re_mnt_letter (stripWrapping ''/usr//local/bin/'')) \<or>
      re_slash_letter (stripWrapping ''/usr//local/bin/'') \<or>
      re_drive (stripWrapping ''/usr//local/bin/'')"
    using u by simp
  have st: "stripWrapping (normalizePath posix_normalize ''/usr//local/bin/'') =
      normalizePath posix_normalize ''/usr//local/bin/''"
    by code_simp
  have uq: "isUnixPath (normalizePath posix_normalize ''/usr//local/bin/'')"
    by code_simp
  show ?thesis
    using u uq by (intro normalizePath_idempotent_posix [OF form st]) simp_all
qed

theorem normalizePath_not_idempotent_counterexample:
  "isUnixPath ''//c/x'' \<and>
   normalizePath posix_normalize ''//c/x'' = ''/c/x'' \<and>
   normalizePath posix_normalize (normalizePath posix_normalize ''//c/x'') =
     CHR ''C'' # CHR '':'' # bslash # ''x'' \<and>
   normalizePath posix_normalize (normalizePath posix_normalize ''//c/x'') \<noteq>
     normalizePath posix_normalize ''//c/x'' \<and>
   isUnixPath ''//MNT/c/x'' \<and>
   normalizePath posix_normalize ''//MNT/c/x'' = ''/MNT/c/x'' \<and>
   normalizePath posix_normalize (normalizePath posix_normalize ''//MNT/c/x'') =
     bslash # ''MNT'' @ bslash # ''c'' @ bslash # ''x'' \<and>
   normalizePath posix_normalize (normalizePath posix_normalize ''//MNT/c/x'') \<noteq>
     normalizePath posix_normalize ''//MNT/c/x''"
  by code_simp

section \<open>The stripping step\<close>

lemma dropWhile_all_prefix:
  "\<forall>c\<in>set ws. P c \<Longrightarrow> dropWhile P (ws @ xs) = dropWhile P xs"
  by (induction ws) auto

lemma js_trim_wrapped:
  assumes w1: "\<forall>c\<in>set ws1. is_js_whitespace c" and w2: "\<forall>c\<in>set ws2. is_js_whitespace c"
    and ne: "core \<noteq> []" and h: "\<not> is_js_whitespace (hd core)"
    and l: "\<not> is_js_whitespace (last core)"
  shows "js_trim (ws1 @ core @ ws2) = core"
proof -
  obtain a as where c1: "core = a # as" using ne by (cases core) auto
  obtain bs b where c2: "core = bs @ [b]" using ne by (cases core rule: rev_cases) auto
  have "dropWhile is_js_whitespace (ws1 @ core @ ws2) = core @ ws2"
    using w1 h by (simp add: dropWhile_all_prefix c1)
  moreover have "dropWhile is_js_whitespace (rev ws2 @ rev core) = rev core"
    using w2 l by (simp add: dropWhile_all_prefix c2)
  ultimately show ?thesis by (simp add: js_trim_def)
qed

lemma quote_not_whitespace: "is_quote c \<Longrightarrow> \<not> is_js_whitespace c"
  by (auto simp: is_quote_def is_js_whitespace_def)

lemma drop_trailing_quote_Nil_iff:
  "drop_trailing_quote s = [] \<longleftrightarrow> s = [] \<or> (\<exists>q. is_quote q \<and> s = [q])"
  by (cases s rule: rev_cases) (auto simp: drop_trailing_quote_def)

lemma stripWrapping_empty_iff:
  "stripWrapping p = [] \<longleftrightarrow>
     js_trim p = [] \<or> (\<exists>q. is_quote q \<and> js_trim p = [q]) \<or>
     (\<exists>q q'. is_quote q \<and> is_quote q' \<and> js_trim p = [q, q'])"
proof (cases "js_trim p")
  case Nil
  then show ?thesis
    by (simp add: stripWrapping_def drop_leading_quote_def drop_trailing_quote_def)
next
  case (Cons c cs)
  show ?thesis
  proof (cases "is_quote c")
    case True
    then show ?thesis
      by (auto simp: stripWrapping_def drop_leading_quote_def Cons drop_trailing_quote_Nil_iff)
  next
    case False
    then show ?thesis
      by (auto simp: stripWrapping_def drop_leading_quote_def Cons drop_trailing_quote_Nil_iff)
  qed
qed

lemma dropWhile_all: "\<forall>c\<in>set ws. P c \<Longrightarrow> dropWhile P ws = []"
  by (induction ws) auto

lemma js_trim_whitespace_only:
  assumes "\<forall>c\<in>set ws. is_js_whitespace c"
  shows "js_trim ws = []"
  using assms by (simp add: js_trim_def dropWhile_all)

lemma js_trim_sandwich:
  assumes w1: "\<forall>c\<in>set ws1. is_js_whitespace c" and w2: "\<forall>c\<in>set ws2. is_js_whitespace c"
    and m: "mid = [] \<or> (\<not> is_js_whitespace (hd mid) \<and> \<not> is_js_whitespace (last mid))"
  shows "js_trim (ws1 @ mid @ ws2) = mid"
proof (cases "mid = []")
  case True
  have "\<forall>c\<in>set (ws1 @ ws2). is_js_whitespace c"
    using w1 w2 by auto
  then have "js_trim (ws1 @ ws2) = []"
    by (rule js_trim_whitespace_only)
  with True show ?thesis by simp
next
  case False
  with m w1 w2 show ?thesis
    by (intro js_trim_wrapped) simp_all
qed

lemma stripWrapping_shape_exists:
  "\<exists>ws1 lead core trail ws2.
     p = ws1 @ lead @ core @ trail @ ws2 \<and>
     (\<forall>c\<in>set ws1. is_js_whitespace c) \<and> (\<forall>c\<in>set ws2. is_js_whitespace c) \<and>
     (lead = [] \<or> (\<exists>q. is_quote q \<and> lead = [q])) \<and>
     (trail = [] \<or> (\<exists>q. is_quote q \<and> trail = [q])) \<and>
     (lead = [] \<longrightarrow> core = [] \<or> (\<not> is_js_whitespace (hd core) \<and> \<not> is_quote (hd core))) \<and>
     (trail = [] \<longrightarrow> core = [] \<or> (\<not> is_js_whitespace (last core) \<and> \<not> is_quote (last core)))"
proof -
  define ws1 where "ws1 = takeWhile is_js_whitespace p"
  define r where "r = dropWhile is_js_whitespace p"
  define ws2 where "ws2 = rev (takeWhile is_js_whitespace (rev r))"
  define mid where "mid = rev (dropWhile is_js_whitespace (rev r))"
  have rm: "r = mid @ ws2"
  proof -
    have "r = rev (rev r)"
      by simp
    also have "\<dots> = rev (takeWhile is_js_whitespace (rev r) @ dropWhile is_js_whitespace (rev r))"
      by (simp only: takeWhile_dropWhile_id)
    also have "\<dots> = mid @ ws2"
      unfolding mid_def ws2_def by (rule rev_append)
    finally show ?thesis .
  qed
  have "p = ws1 @ r"
    by (simp add: ws1_def r_def)
  then have p: "p = ws1 @ mid @ ws2"
    by (simp only: rm)
  have w1: "\<forall>c\<in>set ws1. is_js_whitespace c"
    by (auto simp: ws1_def dest: set_takeWhileD)
  have w2: "\<forall>c\<in>set ws2. is_js_whitespace c"
    by (auto simp: ws2_def dest: set_takeWhileD)
  have lm: "mid \<noteq> [] \<Longrightarrow> \<not> is_js_whitespace (last mid)"
  proof -
    assume "mid \<noteq> []"
    then have ne: "dropWhile is_js_whitespace (rev r) \<noteq> []"
      by (simp add: mid_def)
    then have "\<not> is_js_whitespace (hd (dropWhile is_js_whitespace (rev r)))"
      by (rule hd_dropWhile)
    with ne show ?thesis
      by (simp add: mid_def last_rev)
  qed
  have hm: "mid \<noteq> [] \<Longrightarrow> \<not> is_js_whitespace (hd mid)"
  proof -
    assume ne: "mid \<noteq> []"
    from ne rm have "r \<noteq> []" by simp
    then have "\<not> is_js_whitespace (hd r)"
      unfolding r_def by (rule hd_dropWhile)
    with ne rm show ?thesis by simp
  qed
  show ?thesis
  proof (cases mid)
    case Nil
    with p w1 w2 show ?thesis
      by (intro exI [of _ ws1] exI [of _ "[]"] exI [of _ ws2]) simp
  next
    case (Cons c cs)
    define lead where "lead = (if is_quote c then [c] else [])"
    define rem where "rem = (if is_quote c then cs else mid)"
    define trail where "trail = (if rem \<noteq> [] \<and> is_quote (last rem) then [last rem] else [])"
    define core where "core = (if rem \<noteq> [] \<and> is_quote (last rem) then butlast rem else rem)"
    have m1: "mid = lead @ rem"
      by (simp add: lead_def rem_def Cons)
    have m2: "rem = core @ trail"
      by (simp add: core_def trail_def)
    have c1: "lead = [] \<or> (\<exists>q. is_quote q \<and> lead = [q])"
      by (simp add: lead_def)
    have c2: "trail = [] \<or> (\<exists>q. is_quote q \<and> trail = [q])"
      by (simp add: trail_def)
    have c3: "lead = [] \<longrightarrow> core = [] \<or> (\<not> is_js_whitespace (hd core) \<and> \<not> is_quote (hd core))"
    proof (intro impI)
      assume "lead = []"
      then have nq: "\<not> is_quote c" and rm: "rem = mid"
        by (auto simp: lead_def rem_def split: if_splits)
      show "core = [] \<or> (\<not> is_js_whitespace (hd core) \<and> \<not> is_quote (hd core))"
      proof (cases "core = []")
        case True
        then show ?thesis by simp
      next
        case False
        then have "hd core = hd rem"
          using m2 by (cases core) auto
        then have "hd core = c"
          by (simp add: rm Cons)
        with nq hm Cons show ?thesis by simp
      qed
    qed
    have c4: "trail = [] \<longrightarrow> core = [] \<or> (\<not> is_js_whitespace (last core) \<and> \<not> is_quote (last core))"
    proof (intro impI)
      assume t: "trail = []"
      then have cr: "core = rem" and nq: "rem = [] \<or> \<not> is_quote (last rem)"
        by (auto simp: trail_def core_def split: if_splits)
      show "core = [] \<or> (\<not> is_js_whitespace (last core) \<and> \<not> is_quote (last core))"
      proof (cases "core = []")
        case True
        then show ?thesis by simp
      next
        case False
        then have "last mid = last core"
          using m1 cr by simp
        with False lm Cons nq cr show ?thesis by auto
      qed
    qed
    have "p = ws1 @ lead @ core @ trail @ ws2"
      using p m1 m2 by simp
    with w1 w2 c1 c2 c3 c4 show ?thesis by blast
  qed
qed

text \<open>
  C8. The stripping step trims the whitespace at both ends and then removes one quote
  character at the start, if the trimmed string starts with one, and one quote
  character at the end, if what is left ends with one: each on its own, whether or not
  the two match, only once, and without trimming again. Every input is whitespace, an
  optional quote, a core, an optional quote and whitespace, where on a side without a
  quote the core is empty or has there a character that is neither whitespace nor a
  quote (\<open>stripWrapping_shape_exists\<close>), and the result is the core: a second quote and
  whitespace inside the quotes stay.
\<close>

theorem stripWrapping_removes_one_quote_each_end:
  assumes w1: "\<forall>c\<in>set ws1. is_js_whitespace c" and w2: "\<forall>c\<in>set ws2. is_js_whitespace c"
    and lead: "lead = [] \<or> (\<exists>q. is_quote q \<and> lead = [q])"
    and trail: "trail = [] \<or> (\<exists>q. is_quote q \<and> trail = [q])"
    and h: "lead = [] \<Longrightarrow>
            core = [] \<or> (\<not> is_js_whitespace (hd core) \<and> \<not> is_quote (hd core))"
    and l: "trail = [] \<Longrightarrow>
            core = [] \<or> (\<not> is_js_whitespace (last core) \<and> \<not> is_quote (last core))"
  shows "stripWrapping (ws1 @ lead @ core @ trail @ ws2) = core"
proof -
  let ?m = "lead @ core @ trail"
  have hm: "?m = [] \<or> \<not> is_js_whitespace (hd ?m)"
  proof (cases "lead = []")
    case True
    from h [OF True] trail show ?thesis
      by (cases core) (auto simp: True quote_not_whitespace)
  next
    case False
    with lead show ?thesis by (auto simp: quote_not_whitespace)
  qed
  have lm: "?m = [] \<or> \<not> is_js_whitespace (last ?m)"
  proof (cases "trail = []")
    case True
    from l [OF True] lead show ?thesis
      by (cases core rule: rev_cases) (auto simp: True quote_not_whitespace)
  next
    case False
    with trail show ?thesis by (auto simp: quote_not_whitespace)
  qed
  have "js_trim (ws1 @ ?m @ ws2) = ?m"
    using w1 w2 hm lm by (intro js_trim_sandwich) auto
  then have t: "js_trim (ws1 @ lead @ core @ trail @ ws2) = lead @ core @ trail"
    by simp
  have dl: "drop_leading_quote (lead @ core @ trail) = core @ trail \<or>
            (lead = [] \<and> core = [] \<and> drop_leading_quote (lead @ core @ trail) = [])"
  proof (cases "lead = []")
    case True
    from h [OF True] trail show ?thesis
      by (cases core) (auto simp: True drop_leading_quote_def)
  next
    case False
    with lead show ?thesis by (auto simp: drop_leading_quote_def)
  qed
  have dt: "drop_trailing_quote (core @ trail) = core"
  proof (cases "trail = []")
    case True
    from l [OF True] show ?thesis
      by (auto simp: True drop_trailing_quote_def)
  next
    case False
    with trail show ?thesis by (auto simp: drop_trailing_quote_def)
  qed
  have d0: "drop_trailing_quote [] = []"
    by (simp add: drop_trailing_quote_def)
  have sw: "stripWrapping (ws1 @ lead @ core @ trail @ ws2) =
      drop_trailing_quote (drop_leading_quote (lead @ core @ trail))"
    by (simp only: stripWrapping_def t)
  from dl show ?thesis
  proof
    assume a: "drop_leading_quote (lead @ core @ trail) = core @ trail"
    show ?thesis
      unfolding sw a by (rule dt)
  next
    assume "lead = [] \<and> core = [] \<and> drop_leading_quote (lead @ core @ trail) = []"
    then have a: "drop_leading_quote (lead @ core @ trail) = []" and c: "core = []"
      by blast+
    have "stripWrapping (ws1 @ lead @ core @ trail @ ws2) = []"
      unfolding sw a by (rule d0)
    with c show ?thesis by simp
  qed
qed

theorem stripWrapping_removes_one_quote_each_end_witness:
  "stripWrapping (''  '' @ [dquote] @ (dquote # '' a b '') @ [squote] @ '' '') = dquote # '' a b ''"
proof -
  have w1: "\<forall>c\<in>set ''  ''. is_js_whitespace c" by (simp add: is_js_whitespace_def)
  have w2: "\<forall>c\<in>set '' ''. is_js_whitespace c" by (simp add: is_js_whitespace_def)
  have lead: "[dquote] = [] \<or> (\<exists>q. is_quote q \<and> [dquote] = [q])" by (simp add: is_quote_def)
  have trail: "[squote] = [] \<or> (\<exists>q. is_quote q \<and> [squote] = [q])" by (simp add: is_quote_def)
  have h: "[dquote] = [] \<Longrightarrow> dquote # '' a b '' = [] \<or>
      (\<not> is_js_whitespace (hd (dquote # '' a b '')) \<and> \<not> is_quote (hd (dquote # '' a b '')))"
    by simp
  have l: "[squote] = [] \<Longrightarrow> dquote # '' a b '' = [] \<or>
      (\<not> is_js_whitespace (last (dquote # '' a b '')) \<and> \<not> is_quote (last (dquote # '' a b '')))"
    by simp
  show ?thesis
    using w1 w2 lead trail h l by (rule stripWrapping_removes_one_quote_each_end)
qed

theorem stripWrapping_unmatched_quote_counterexample:
  "stripWrapping (dquote # ''abc'') = ''abc'' \<and>
   stripWrapping (dquote # ''abc'') \<noteq> dquote # ''abc'' \<and>
   stripWrapping (squote # ''abc'' @ [dquote]) = ''abc'' \<and>
   stripWrapping (squote # ''abc'' @ [dquote]) \<noteq> squote # ''abc'' @ [dquote] \<and>
   normalizePath posix_normalize (dquote # ''/usr/local'') = ''/usr/local''"
  by code_simp

section \<open>The empty path\<close>

lemma recapitalize_dot: "recapitalize ''.'' = ''.''"
  by (simp add: recapitalize_def re_windows_like_def)

text \<open>
  C10. Every input that the stripping step reduces to the empty string
  normalizes to \<open>"."\<close>, on a host whose \<open>path.normalize\<close> maps the empty string to \<open>"."\<close>
  (Node's does, on POSIX and on Windows). By \<open>stripWrapping_empty_iff\<close> these inputs are
  whitespace around nothing, around one quote character or around two quote characters;
  other inputs made of whitespace and quotes keep something.
\<close>

theorem normalizePath_stripped_empty:
  assumes "stripWrapping p = []" and "path_normalize [] = ''.''"
  shows "normalizePath path_normalize p = ''.''"
proof -
  have nu: "\<not> isUnixPath (stripWrapping p)"
    using assms(1) by (simp add: isUnixPath_def startsWith_def)
  have "convertToWindowsPath [] = []"
    by (simp add: convertToWindowsPath_def startsWith_def)
  then show ?thesis
    using assms by (simp add: normalizePath_other_branch [OF nu] recapitalize_dot)
qed

theorem normalizePath_stripped_empty_witness:
  "normalizePath posix_normalize ('' '' @ [squote, dquote] @ ''  '') = ''.''"
proof -
  have s: "stripWrapping ('' '' @ [squote, dquote] @ ''  '') = []"
    by code_simp
  have e: "posix_normalize [] = ''.''"
    by code_simp
  show ?thesis
    using s e by (rule normalizePath_stripped_empty)
qed

theorem normalizePath_only_quotes_counterexample:
  "normalizePath posix_normalize [squote, squote, squote] = [squote] \<and>
   normalizePath posix_normalize [squote, squote, squote] \<noteq> ''.'' \<and>
   normalizePath posix_normalize [squote, CHR '' '', squote] = '' '' \<and>
   normalizePath posix_normalize [squote, CHR '' '', squote] \<noteq> ''.''"
  by code_simp

section \<open>Home directory expansion\<close>

lemma normalize_step_empty: "normalize_step allow stack [] = stack"
  by (simp add: normalize_step_def)

lemma normalizeString_doubled_slash:
  "normalizeString (a @ CHR ''/'' # CHR ''/'' # s) allow = normalizeString (a @ CHR ''/'' # s) allow"
proof -
  have "split_slash (a @ CHR ''/'' # CHR ''/'' # s) = split_slash a @ [] # split_slash s"
    by (simp add: split_slash_append split_slash_slash)
  then show ?thesis
    by (simp add: normalizeString_def split_slash_append normalize_step_empty)
qed

lemma posix_normalize_doubled_slash:
  assumes "a \<noteq> []" and "s \<noteq> []"
  shows "posix_normalize (a @ CHR ''/'' # CHR ''/'' # s) = posix_normalize (a @ CHR ''/'' # s)"
proof -
  have "hd (a @ CHR ''/'' # CHR ''/'' # s) = hd (a @ CHR ''/'' # s)"
    using assms(1) by simp
  moreover have "last (a @ CHR ''/'' # CHR ''/'' # s) = last (a @ CHR ''/'' # s)"
    using assms(2) by simp
  ultimately show ?thesis
    by (simp add: posix_normalize_def normalizeString_doubled_slash)
qed

lemma posix_join_nonempty:
  "a \<noteq> [] \<Longrightarrow> b \<noteq> [] \<Longrightarrow> posix_join a b = posix_normalize (a @ CHR ''/'' # b)"
  by (simp add: posix_join_def)

lemma posix_join_empty_right: "a \<noteq> [] \<Longrightarrow> posix_join a [] = posix_normalize a"
  by (simp add: posix_join_def)

text \<open>
  C9. On a POSIX host, \<open>expandHome("~")\<close> is \<open>path.join(home, "")\<close>, which is the
  home directory itself when that is a normalized path; for every non-empty suffix \<open>s\<close>
  and non-empty home directory, \<open>expandHome("~/" + s)\<close> is \<open>path.join(home, s)\<close>; every
  input that is neither \<open>~\<close> nor starts with \<open>~/\<close> is returned unchanged.
\<close>

theorem expandHome_posix:
  "(posix_normalize home = home \<longrightarrow> expandHome posix_join home ''~'' = home) \<and>
   (home \<noteq> [] \<and> s \<noteq> [] \<longrightarrow> expandHome posix_join home (''~/'' @ s) = posix_join home s) \<and>
   (p \<noteq> ''~'' \<and> \<not> startsWith p ''~/'' \<longrightarrow> expandHome posix_join home p = p)"
proof (intro conjI impI)
  assume n: "posix_normalize home = home"
  have "home \<noteq> []"
  proof
    assume "home = []"
    with n show False by (simp add: posix_normalize_def)
  qed
  then show "expandHome posix_join home ''~'' = home"
    using n by (simp add: expandHome_def startsWith_def posix_join_empty_right)
next
  assume "home \<noteq> [] \<and> s \<noteq> []"
  then have h: "home \<noteq> []" and s: "s \<noteq> []" by simp_all
  have "expandHome posix_join home (''~/'' @ s) = posix_join home (CHR ''/'' # s)"
    by (simp add: expandHome_def startsWith_def)
  also have "\<dots> = posix_normalize (home @ CHR ''/'' # CHR ''/'' # s)"
    using h by (simp add: posix_join_nonempty)
  also have "\<dots> = posix_normalize (home @ CHR ''/'' # s)"
    using h s by (rule posix_normalize_doubled_slash)
  also have "\<dots> = posix_join home s"
    using h s by (simp add: posix_join_nonempty)
  finally show "expandHome posix_join home (''~/'' @ s) = posix_join home s" .
next
  assume "p \<noteq> ''~'' \<and> \<not> startsWith p ''~/''"
  then show "expandHome posix_join home p = p"
    by (simp add: expandHome_def)
qed

theorem expandHome_posix_witness:
  "expandHome posix_join ''/home/user'' ''~'' = ''/home/user'' \<and>
   expandHome posix_join ''/home/user'' ''~/docs'' = posix_join ''/home/user'' ''docs'' \<and>
   expandHome posix_join ''/home/user'' ''/abs/path'' = ''/abs/path''"
proof -
  have n: "posix_normalize ''/home/user'' = ''/home/user''"
    by code_simp
  have m: "''/home/user'' \<noteq> [] \<and> ''docs'' \<noteq> []"
    by simp
  have o: "''/abs/path'' \<noteq> ''~'' \<and> \<not> startsWith ''/abs/path'' ''~/''"
    by (simp add: startsWith_def)
  show ?thesis
    using expandHome_posix [of "''/home/user''" "''docs''" "''/abs/path''"] n m o
    by simp
qed

theorem expandHome_bare_tilde_slash_counterexample:
  "expandHome posix_join ''/home/user'' (''~/'' @ []) = ''/home/user/'' \<and>
   posix_join ''/home/user'' [] = ''/home/user'' \<and>
   expandHome posix_join ''/home/user'' (''~/'' @ []) \<noteq> posix_join ''/home/user'' [] \<and>
   expandHome posix_join ''/home//user'' ''~'' = ''/home/user'' \<and>
   expandHome posix_join ''/home//user'' ''~'' \<noteq> ''/home//user''"
  by code_simp

end
